theory Spec2Isabelle
  imports Main
begin

section \<open>The graph as the iterator sees it\<close>

text \<open>
  \<^verbatim>\<open>ie_cnn_network_iterator.hpp\<close> walks a network through shared and weak pointers.
  An object is named by its address; a handle is an optional address, \<open>None\<close> being the
  empty handle (\<^verbatim>\<open>nullptr\<close>, or a weak pointer whose \<^verbatim>\<open>lock()\<close> yields nothing).
  The traversal never writes to the graph, so a weak pointer is represented by the
  result of locking it.
\<close>

type_synonym addr = nat
type_synonym CNNLayerPtr = "addr option"
type_synonym DataPtr = "addr option"

text \<open>
  Modelled from the spec: the declaration of \<^verbatim>\<open>Data\<close> (\<^verbatim>\<open>ie_data.h\<close>) is not among the
  sources. An edge carries the consumer nodes reading it (\<^verbatim>\<open>getInputTo()\<close>, a
  \<^verbatim>\<open>std::map\<close> from layer name to layer handle, listed here in iteration order) and a weak
  back-reference to the producer that created it (\<^verbatim>\<open>getCreatorLayer()\<close>), absent for a
  graph input.
\<close>

record Data =
  getInputTo :: "(string \<times> CNNLayerPtr) list"
  getCreatorLayer :: CNNLayerPtr

text \<open>
  Modelled from the spec: the declaration of \<^verbatim>\<open>CNNLayer\<close> (\<^verbatim>\<open>ie_layers.h\<close>) is not among
  the sources. A node has outgoing edges \<^verbatim>\<open>outData\<close> (shared handles) and incoming edges
  \<^verbatim>\<open>insData\<close> (weak handles, given by what \<^verbatim>\<open>lock()\<close> returns).
\<close>

record CNNLayer =
  outData :: "DataPtr list"
  insData :: "DataPtr list"

text \<open>
  Modelled from the spec: the declarations of \<^verbatim>\<open>InputInfo\<close> and \<^verbatim>\<open>ICNNNetwork\<close>
  (\<^verbatim>\<open>ie_icnn_network.hpp\<close>) are not among the sources. A graph exposes its named entry
  points in order (\<^verbatim>\<open>getInputsInfo\<close> fills an ordered map from input name to a handle
  on the input's description); each entry point forwards to the edge read by the nodes
  that first consume that input (\<^verbatim>\<open>getInputData()\<close>).
\<close>

record InputInfo =
  getInputData :: DataPtr

record ICNNNetwork =
  getInputsInfo :: "(string \<times> InputInfo option) list"

text \<open>
  The objects behind the handles. A non-empty shared handle always refers to a live
  object, so the stores are total; a graph object is named by its address as well, which
  is the identity that \<^verbatim>\<open>ICNNNetwork *\<close> carries.
\<close>

record heap =
  layerAt :: "addr \<Rightarrow> CNNLayer"
  dataAt :: "addr \<Rightarrow> Data"
  networkAt :: "addr \<Rightarrow> ICNNNetwork"

text \<open>
  \<open>IE_Exception\<close> is what \<^verbatim>\<open>THROW_IE_EXCEPTION\<close> raises, with its message.
  \<open>NullDereference\<close> stands for the undefined behaviour of \<^verbatim>\<open>->\<close> on an empty handle.
\<close>

datatype error = IE_Exception string | NullDereference

section \<open>The iterator\<close>

record CNNNetworkIterator =
  visited :: "CNNLayerPtr set"
  nextLayersTovisit :: "CNNLayerPtr list"
  currentLayer :: CNNLayerPtr
  network :: "addr option"

text \<open>\<^verbatim>\<open>CNNNetworkIterator() = default\<close>: every member takes its initialiser.\<close>

definition CNNNetworkIterator_default :: CNNNetworkIterator where
  "CNNNetworkIterator_default =
     \<lparr>visited = {}, nextLayersTovisit = [], currentLayer = None, network = None\<rparr>"

text \<open>
  \<^verbatim>\<open>explicit CNNNetworkIterator(ICNNNetwork * network)\<close>. The parameter hides the member
  of the same name, and the body never assigns the member: it keeps its initialiser
  \<^verbatim>\<open>nullptr\<close>.
\<close>

definition CNNNetworkIterator_network :: "heap \<Rightarrow> addr option \<Rightarrow> error + CNNNetworkIterator" where
  "CNNNetworkIterator_network h net =
     (case net of
        None \<Rightarrow> Inl NullDereference
      | Some n \<Rightarrow>
          (case getInputsInfo (networkAt h n) of
             [] \<Rightarrow> Inr CNNNetworkIterator_default
           | inp # _ \<Rightarrow>
               (case snd inp of
                  None \<Rightarrow> Inl NullDereference
                | Some info \<Rightarrow>
                    (case getInputData info of
                       None \<Rightarrow> Inl NullDereference
                     | Some d \<Rightarrow>
                         (case getInputTo (dataAt h d) of
                            [] \<Rightarrow> Inr CNNNetworkIterator_default
                          | child # _ \<Rightarrow>
                              Inr (CNNNetworkIterator_default
                                    \<lparr>currentLayer := snd child,
                                     nextLayersTovisit := [snd child],
                                     visited := {snd child}\<rparr>))))))"

text \<open>The inner loop of \<^verbatim>\<open>next()\<close> over the consumers \<^verbatim>\<open>output->getInputTo()\<close>.\<close>

fun visit_children :: "(string \<times> CNNLayerPtr) list \<Rightarrow> CNNNetworkIterator \<Rightarrow> CNNNetworkIterator" where
  "visit_children [] it = it"
| "visit_children (child # cs) it =
     (if snd child \<notin> visited it
      then visit_children cs
             (it\<lparr>nextLayersTovisit := nextLayersTovisit it @ [snd child],
                 visited := insert (snd child) (visited it)\<rparr>)
      else visit_children cs it)"

text \<open>The outer loop over \<^verbatim>\<open>nextLayer->outData\<close>; \<^verbatim>\<open>output->\<close> needs a non-empty handle.\<close>

fun visit_outputs :: "heap \<Rightarrow> DataPtr list \<Rightarrow> CNNNetworkIterator \<Rightarrow> error + CNNNetworkIterator" where
  "visit_outputs h [] it = Inr it"
| "visit_outputs h (output # os) it =
     (case output of
        None \<Rightarrow> Inl NullDereference
      | Some d \<Rightarrow> visit_outputs h os (visit_children (getInputTo (dataAt h d)) it))"

text \<open>
  The loop over \<^verbatim>\<open>nextLayer->insData\<close>: \<^verbatim>\<open>parent.lock()->getCreatorLayer().lock()\<close>
  dereferences the locked edge unchecked; only the producer handle is tested.
\<close>

fun visit_parents :: "heap \<Rightarrow> DataPtr list \<Rightarrow> CNNNetworkIterator \<Rightarrow> error + CNNNetworkIterator" where
  "visit_parents h [] it = Inr it"
| "visit_parents h (parent # ps) it =
     (case parent of
        None \<Rightarrow> Inl NullDereference
      | Some d \<Rightarrow>
          (let parentLayer = getCreatorLayer (dataAt h d) in
           if parentLayer \<noteq> None \<and> parentLayer \<notin> visited it
           then visit_parents h ps
                  (it\<lparr>nextLayersTovisit := nextLayersTovisit it @ [parentLayer],
                      visited := insert parentLayer (visited it)\<rparr>)
           else visit_parents h ps it))"

definition front :: "CNNLayerPtr list \<Rightarrow> CNNLayerPtr" where
  "front q = (case q of [] \<Rightarrow> None | l # _ \<Rightarrow> l)"

text \<open>
  \<^verbatim>\<open>CNNLayerPtr next()\<close> (the name \<open>next\<close> is reserved in Isar): the returned handle and
  the iterator as the call leaves it.
\<close>

definition next_layer :: "heap \<Rightarrow> CNNNetworkIterator \<Rightarrow> error + (CNNLayerPtr \<times> CNNNetworkIterator)" where
  "next_layer h it =
     (case nextLayersTovisit it of
        [] \<Rightarrow> Inr (None, it)
      | nextLayer # rest \<Rightarrow>
          (case nextLayer of
             None \<Rightarrow> Inl NullDereference
           | Some l \<Rightarrow>
               (case visit_outputs h (outData (layerAt h l)) (it\<lparr>nextLayersTovisit := rest\<rparr>) of
                  Inl e \<Rightarrow> Inl e
                | Inr it1 \<Rightarrow>
                    (case visit_parents h (insData (layerAt h l)) it1 of
                       Inl e \<Rightarrow> Inl e
                     | Inr it2 \<Rightarrow> Inr (front (nextLayersTovisit it2), it2)))))"

text \<open>
  \<^verbatim>\<open>operator++()\<close> returns \<^verbatim>\<open>*this\<close>, the iterator after the step;
  \<^verbatim>\<open>operator++(int)\<close> returns \<^verbatim>\<open>void\<close>. Both results are paired with the new state.
\<close>

definition operator_preinc :: "heap \<Rightarrow> CNNNetworkIterator \<Rightarrow> error + (CNNNetworkIterator \<times> CNNNetworkIterator)" where
  "operator_preinc h it =
     (case next_layer h it of
        Inl e \<Rightarrow> Inl e
      | Inr (l, it') \<Rightarrow> (let this = it'\<lparr>currentLayer := l\<rparr> in Inr (this, this)))"

definition operator_postinc :: "heap \<Rightarrow> CNNNetworkIterator \<Rightarrow> error + (unit \<times> CNNNetworkIterator)" where
  "operator_postinc h it =
     (case next_layer h it of
        Inl e \<Rightarrow> Inl e
      | Inr (l, it') \<Rightarrow> Inr ((), it'\<lparr>currentLayer := l\<rparr>))"

definition operator_eq :: "CNNNetworkIterator \<Rightarrow> CNNNetworkIterator \<Rightarrow> bool" where
  "operator_eq this that \<longleftrightarrow> network this = network that \<and> currentLayer this = currentLayer that"

definition operator_neq :: "CNNNetworkIterator \<Rightarrow> CNNNetworkIterator \<Rightarrow> bool" where
  "operator_neq this that \<longleftrightarrow> \<not> operator_eq this that"

text \<open>The two overloads of \<^verbatim>\<open>operator*\<close>; their messages differ by a misspelling.\<close>

definition operator_deref_const :: "CNNNetworkIterator \<Rightarrow> error + CNNLayerPtr" where
  "operator_deref_const it =
     (if None = currentLayer it then Inl (IE_Exception ''iterator of ouf bound'')
      else Inr (currentLayer it))"

definition operator_deref :: "CNNNetworkIterator \<Rightarrow> error + CNNLayerPtr" where
  "operator_deref it =
     (if None = currentLayer it then Inl (IE_Exception ''iterator out of bound'')
      else Inr (currentLayer it))"

text \<open>
  The non-const overload returns \<^verbatim>\<open>CNNLayerPtr &\<close>, a reference to the member
  \<^verbatim>\<open>currentLayer\<close>: the caller's \<^verbatim>\<open>*it = v\<close> throws on an empty current node and
  otherwise overwrites the member, leaving the queue and the visited set as they are.
\<close>

definition operator_deref_assign :: "CNNNetworkIterator \<Rightarrow> CNNLayerPtr \<Rightarrow> error + CNNNetworkIterator" where
  "operator_deref_assign it v =
     (if None = currentLayer it then Inl (IE_Exception ''iterator out of bound'')
      else Inr (it\<lparr>currentLayer := v\<rparr>))"

section \<open>Driving the iterator\<close>

text \<open>
  A run of advance calls on one iterator, \<open>True\<close> for \<^verbatim>\<open>++it\<close> and \<open>False\<close> for
  \<^verbatim>\<open>it++\<close>; it stops at the first failure.
\<close>

fun advance :: "heap \<Rightarrow> bool list \<Rightarrow> CNNNetworkIterator \<Rightarrow> error + CNNNetworkIterator" where
  "advance h [] it = Inr it"
| "advance h (pre # bs) it =
     (if pre
      then (case operator_preinc h it of Inl e \<Rightarrow> Inl e | Inr (_, it') \<Rightarrow> advance h bs it')
      else (case operator_postinc h it of Inl e \<Rightarrow> Inl e | Inr (_, it') \<Rightarrow> advance h bs it'))"

text \<open>
  The loop the class exists for,
  \<^verbatim>\<open>for (it = CNNNetworkIterator(net); it != CNNNetworkIterator(); ++it) emit(*it);\<close>,
  with the emitted handles in order. \<open>None\<close> means the fuel ran out before the loop ended.
\<close>

fun range_loop :: "heap \<Rightarrow> nat \<Rightarrow> CNNNetworkIterator \<Rightarrow> (error + CNNLayerPtr list) option" where
  "range_loop h 0 it = None"
| "range_loop h (Suc fuel) it =
     (if operator_neq it CNNNetworkIterator_default
      then (case operator_deref it of
              Inl e \<Rightarrow> Some (Inl e)
            | Inr l \<Rightarrow>
                (case operator_preinc h it of
                   Inl e \<Rightarrow> Some (Inl e)
                 | Inr (_, it') \<Rightarrow> map_option (map_sum id ((#) l)) (range_loop h fuel it')))
      else Some (Inr []))"

text \<open>
  The cursors obtained from the constructors and advance calls alone, that is, without
  a write through the reference that \<^verbatim>\<open>operator*\<close> returns.
\<close>

inductive cursor :: "heap \<Rightarrow> CNNNetworkIterator \<Rightarrow> bool" for h :: heap where
  cursor_default: "cursor h CNNNetworkIterator_default"
| cursor_network: "CNNNetworkIterator_network h net = Inr it \<Longrightarrow> cursor h it"
| cursor_preinc: "cursor h it \<Longrightarrow> operator_preinc h it = Inr (r, it') \<Longrightarrow> cursor h it'"
| cursor_postinc: "cursor h it \<Longrightarrow> operator_postinc h it = Inr (u, it') \<Longrightarrow> cursor h it'"

text \<open>
  What one advance call appended to the frontier queue: the call pops the front and only
  ever pushes at the back, so the appended handles are what lies beyond the old tail.
  \<open>enqueued\<close> lists every handle pushed over a run of advance calls, in order.
\<close>

definition appended :: "CNNNetworkIterator \<Rightarrow> CNNNetworkIterator \<Rightarrow> CNNLayerPtr list" where
  "appended it it' = drop (length (nextLayersTovisit it) - 1) (nextLayersTovisit it')"

fun enqueued :: "heap \<Rightarrow> bool list \<Rightarrow> CNNNetworkIterator \<Rightarrow> error + CNNLayerPtr list" where
  "enqueued h [] it = Inr []"
| "enqueued h (pre # bs) it =
     (case advance h [pre] it of
        Inl e \<Rightarrow> Inl e
      | Inr it' \<Rightarrow> map_sum id ((@) (appended it it')) (enqueued h bs it'))"

section \<open>The component of a node\<close>

text \<open>
  The nodes one step away from a node: the consumers attached to its outgoing edges and
  the producers of its incoming edges. The weakly-connected component of a node is what
  these steps reach, in any number and in any mix of the two directions.
\<close>

definition edge_consumers :: "heap \<Rightarrow> DataPtr list \<Rightarrow> CNNLayerPtr list" where
  "edge_consumers h os =
     concat (map (\<lambda>output. case output of None \<Rightarrow> [] | Some d \<Rightarrow> map snd (getInputTo (dataAt h d))) os)"

definition edge_producers :: "heap \<Rightarrow> DataPtr list \<Rightarrow> CNNLayerPtr list" where
  "edge_producers h ps =
     concat (map (\<lambda>parent. case parent of None \<Rightarrow> [] | Some d \<Rightarrow> [getCreatorLayer (dataAt h d)]) ps)"

definition consumers :: "heap \<Rightarrow> addr \<Rightarrow> CNNLayerPtr list" where
  "consumers h l = edge_consumers h (outData (layerAt h l))"

definition producers :: "heap \<Rightarrow> addr \<Rightarrow> CNNLayerPtr list" where
  "producers h l = edge_producers h (insData (layerAt h l))"

definition edges :: "heap \<Rightarrow> (addr \<times> addr) set" where
  "edges h = {(l, m). Some m \<in> set (consumers h l) \<union> set (producers h l)}"

definition component :: "heap \<Rightarrow> addr \<Rightarrow> addr set" where
  "component h l = (edges h)\<^sup>* `` {l}"

text \<open>
  A finite graph with node set \<open>N\<close>: every edge handle of a node of \<open>N\<close> is non-empty,
  every consumer handle is non-empty and in \<open>N\<close>, and every producer that is present
  is in \<open>N\<close>.
\<close>

definition graph_nodes :: "heap \<Rightarrow> addr set \<Rightarrow> bool" where
  "graph_nodes h N \<longleftrightarrow>
     finite N \<and>
     (\<forall>l\<in>N. None \<notin> set (outData (layerAt h l)) \<and> None \<notin> set (insData (layerAt h l)) \<and>
        (\<forall>c\<in>set (consumers h l). case c of None \<Rightarrow> False | Some m \<Rightarrow> m \<in> N) \<and>
        (\<forall>p\<in>set (producers h l). case p of None \<Rightarrow> True | Some m \<Rightarrow> m \<in> N))"

text \<open>
  The state of a traversal seeded at \<open>l\<close> that has dequeued the handles \<open>E\<close> so far:
  the visited set is exactly the dequeued and the queued handles, none of them twice, all
  of them nodes of the component of \<open>l\<close>, and every node one step away from a dequeued
  node has been visited.
\<close>

definition traversal_inv :: "heap \<Rightarrow> addr \<Rightarrow> CNNLayerPtr list \<Rightarrow> CNNNetworkIterator \<Rightarrow> bool" where
  "traversal_inv h l E it \<longleftrightarrow>
     network it = None \<and> currentLayer it = front (nextLayersTovisit it) \<and>
     visited it = set E \<union> set (nextLayersTovisit it) \<and>
     distinct (E @ nextLayersTovisit it) \<and>
     Some l \<in> visited it \<and> visited it \<subseteq> Some ` component h l \<and>
     (\<forall>n m. Some n \<in> set E \<longrightarrow> (n, m) \<in> edges h \<longrightarrow> Some m \<in> visited it)"

text \<open>No edge of the heap lists an empty handle among its consumers.\<close>

definition consumers_present :: "heap \<Rightarrow> bool" where
  "consumers_present h \<longleftrightarrow> (\<forall>d. None \<notin> snd ` set (getInputTo (dataAt h d)))"

section \<open>What one step appends\<close>

text \<open>
  The handles of a list that are not yet in \<open>V\<close>, each once, in order of first
  occurrence: what a loop of check-then-insert steps pushes. \<open>expansion\<close> lists the
  handles that \<^verbatim>\<open>next()\<close> submits to that check for a dequeued node: every consumer, then
  every producer that is present.
\<close>

fun fresh :: "'a set \<Rightarrow> 'a list \<Rightarrow> 'a list" where
  "fresh V [] = []"
| "fresh V (x # xs) = (if x \<in> V then fresh V xs else x # fresh (insert x V) xs)"

definition expansion :: "heap \<Rightarrow> addr \<Rightarrow> CNNLayerPtr list" where
  "expansion h l = consumers h l @ filter (\<lambda>p. p \<noteq> None) (producers h l)"

section \<open>A concrete graph\<close>

text \<open>
  Input \<open>I\<close> (edge 10, no producer) feeds \<open>A\<close> (node 1); \<open>A\<close> outputs edge 11 to \<open>B\<close>
  (node 2) and \<open>C\<close> (node 3); \<open>B\<close> and \<open>C\<close> output edges 12 and 13 to \<open>D\<close>
  (node 4), whose own output edge 14 has no consumer. Two graph objects, at addresses 0
  and 1, declare the same entry point \<open>I\<close>; the graph object at address 2 declares an
  entry point \<open>J\<close> that nothing consumes (edge 15); every other graph object declares no
  entry point.
\<close>

definition diamond :: heap where
  "diamond =
     \<lparr>layerAt = (\<lambda>a.
        if a = 1 then \<lparr>outData = [Some 11], insData = [Some 10]\<rparr>
        else if a = 2 then \<lparr>outData = [Some 12], insData = [Some 11]\<rparr>
        else if a = 3 then \<lparr>outData = [Some 13], insData = [Some 11]\<rparr>
        else if a = 4 then \<lparr>outData = [Some 14], insData = [Some 12, Some 13]\<rparr>
        else \<lparr>outData = [], insData = []\<rparr>),
      dataAt = (\<lambda>a.
        if a = 10 then \<lparr>getInputTo = [(''A'', Some 1)], getCreatorLayer = None\<rparr>
        else if a = 11 then \<lparr>getInputTo = [(''B'', Some 2), (''C'', Some 3)], getCreatorLayer = Some 1\<rparr>
        else if a = 12 then \<lparr>getInputTo = [(''D'', Some 4)], getCreatorLayer = Some 2\<rparr>
        else if a = 13 then \<lparr>getInputTo = [(''D'', Some 4)], getCreatorLayer = Some 3\<rparr>
        else if a = 14 then \<lparr>getInputTo = [], getCreatorLayer = Some 4\<rparr>
        else \<lparr>getInputTo = [], getCreatorLayer = None\<rparr>),
      networkAt = (\<lambda>a.
        if a = 0 \<or> a = 1 then \<lparr>getInputsInfo = [(''I'', Some \<lparr>getInputData = Some 10\<rparr>)]\<rparr>
        else if a = 2 then \<lparr>getInputsInfo = [(''J'', Some \<lparr>getInputData = Some 15\<rparr>)]\<rparr>
        else \<lparr>getInputsInfo = []\<rparr>)\<rparr>"

definition at_A :: CNNNetworkIterator where
  "at_A = \<lparr>visited = {Some 1}, nextLayersTovisit = [Some 1], currentLayer = Some 1, network = None\<rparr>"

text \<open>The cursor on this graph after one advance, and after four.\<close>

definition at_B :: CNNNetworkIterator where
  "at_B = \<lparr>visited = {Some 1, Some 2, Some 3}, nextLayersTovisit = [Some 2, Some 3],
           currentLayer = Some 2, network = None\<rparr>"

definition exhausted :: CNNNetworkIterator where
  "exhausted = \<lparr>visited = {Some 1, Some 2, Some 3, Some 4}, nextLayersTovisit = [],
           currentLayer = None, network = None\<rparr>"

text \<open>The cursor at \<open>A\<close> after the caller's \<^verbatim>\<open>*it = nullptr\<close>.\<close>

definition emptied :: CNNNetworkIterator where
  "emptied = \<lparr>visited = {Some 1}, nextLayersTovisit = [Some 1], currentLayer = None, network = None\<rparr>"

text \<open>
  The same graph with an empty consumer handle on the output edge of \<open>D\<close>, and the
  cursor on it after four advances: the empty handle is queued and shown as current node.
\<close>

definition diamond_null :: heap where
  "diamond_null =
     diamond\<lparr>dataAt := (dataAt diamond)
       (14 := \<lparr>getInputTo = [(''E'', None)], getCreatorLayer = Some 4\<rparr>)\<rparr>"

definition stuck :: CNNNetworkIterator where
  "stuck = \<lparr>visited = {Some 1, Some 2, Some 3, Some 4, None}, nextLayersTovisit = [None],
           currentLayer = None, network = None\<rparr>"

text \<open>The same graph with the incoming edge of \<open>A\<close> expired.\<close>

definition diamond_expired :: heap where
  "diamond_expired =
     diamond\<lparr>layerAt := (layerAt diamond)(1 := \<lparr>outData = [Some 11], insData = [None]\<rparr>)\<rparr>"

text \<open>The same graph with the consumers of \<open>A\<close>'s output enumerated \<open>C\<close> first.\<close>

definition diamond_swapped :: heap where
  "diamond_swapped =
     diamond\<lparr>dataAt := (dataAt diamond)
       (11 := \<lparr>getInputTo = [(''C'', Some 3), (''B'', Some 2)], getCreatorLayer = Some 1\<rparr>)\<rparr>"

section \<open>The loops of one step\<close>

lemma set_fresh: "set (fresh V xs) = set xs - V"
  by (induction xs arbitrary: V) auto

lemma distinct_fresh: "distinct (fresh V xs)"
  by (induction xs arbitrary: V) (auto simp: set_fresh)

lemma fresh_append: "fresh V (xs @ ys) = fresh V xs @ fresh (V \<union> set xs) ys"
proof (induction xs arbitrary: V)
  case Nil
  show ?case by simp
next
  case (Cons x xs)
  show ?case
  proof (cases "x \<in> V")
    case True
    then have "V \<union> set (x # xs) = V \<union> set xs" by auto
    with True Cons show ?thesis by simp
  next
    case False
    have "insert x V \<union> set xs = V \<union> set (x # xs)" by auto
    with False Cons show ?thesis by simp
  qed
qed

lemma visit_children_eq:
  "visit_children cs it =
     it\<lparr>nextLayersTovisit := nextLayersTovisit it @ fresh (visited it) (map snd cs),
        visited := visited it \<union> set (map snd cs)\<rparr>"
proof (induction cs arbitrary: it)
  case Nil
  show ?case by simp
next
  case (Cons child cs)
  show ?case
  proof (cases "snd child \<in> visited it")
    case True
    then have "visited it \<union> set (map snd (child # cs)) = visited it \<union> set (map snd cs)" by auto
    with True Cons show ?thesis by simp
  next
    case False
    then show ?thesis by (simp add: Cons)
  qed
qed

lemma visit_outputs_eq:
  "visit_outputs h os it =
     (if None \<in> set os then Inl NullDereference
      else Inr (it\<lparr>nextLayersTovisit := nextLayersTovisit it @ fresh (visited it) (edge_consumers h os),
                  visited := visited it \<union> set (edge_consumers h os)\<rparr>))"
proof (induction os arbitrary: it)
  case Nil
  show ?case by (simp add: edge_consumers_def)
next
  case (Cons out os)
  show ?case
  proof (cases out)
    case None
    then show ?thesis by simp
  next
    case (Some d)
    then show ?thesis
      by (simp add: Cons visit_children_eq edge_consumers_def fresh_append Un_assoc)
  qed
qed

lemma visit_parents_eq:
  "visit_parents h ps it =
     (if None \<in> set ps then Inl NullDereference
      else Inr (it\<lparr>nextLayersTovisit :=
                    nextLayersTovisit it @
                    fresh (visited it) (filter (\<lambda>p. p \<noteq> None) (edge_producers h ps)),
                  visited := visited it \<union> set (filter (\<lambda>p. p \<noteq> None) (edge_producers h ps))\<rparr>))"
proof (induction ps arbitrary: it)
  case Nil
  show ?case by (simp add: edge_producers_def)
next
  case (Cons parent ps)
  show ?case
  proof (cases parent)
    case None
    then show ?thesis by simp
  next
    case (Some d)
    note parent = this
    show ?thesis
    proof (cases "getCreatorLayer (dataAt h d)")
      case None
      with parent show ?thesis
        by (simp add: Cons edge_producers_def)
    next
      case (Some p)
      note creator = this
      show ?thesis
      proof (cases "Some p \<in> visited it")
        case True
        then have "insert (Some p) (visited it \<union> S) = visited it \<union> S" for S by auto
        with True creator parent show ?thesis
          by (simp add: Cons edge_producers_def)
      next
        case False
        with creator parent show ?thesis
          by (simp add: Cons edge_producers_def Let_def)
      qed
    qed
  qed
qed

lemma next_layer_empty: "nextLayersTovisit it = [] \<Longrightarrow> next_layer h it = Inr (None, it)"
  by (simp add: next_layer_def)

lemma next_layer_null:
  "nextLayersTovisit it = None # rest \<Longrightarrow> next_layer h it = Inl NullDereference"
  by (simp add: next_layer_def)

lemma next_layer_node:
  assumes "nextLayersTovisit it = Some l # rest"
  shows "next_layer h it =
     (if None \<in> set (outData (layerAt h l)) \<or> None \<in> set (insData (layerAt h l))
      then Inl NullDereference
      else Inr (front (rest @ fresh (visited it) (expansion h l)),
                it\<lparr>nextLayersTovisit := rest @ fresh (visited it) (expansion h l),
                   visited := visited it \<union> set (expansion h l)\<rparr>))"
  using assms
  by (simp add: next_layer_def visit_outputs_eq visit_parents_eq expansion_def consumers_def
      producers_def fresh_append Un_assoc)

section \<open>One advance call\<close>

lemma postinc_preinc:
  "operator_postinc h it = Inr (u, it') \<longleftrightarrow> operator_preinc h it = Inr (it', it')"
  by (auto simp: operator_postinc_def operator_preinc_def Let_def split: sum.splits prod.splits)

lemma advance_single:
  "advance h [pre] it = Inr it' \<longleftrightarrow> operator_preinc h it = Inr (it', it')"
  by (cases pre)
     (auto simp: operator_postinc_def operator_preinc_def Let_def split: sum.splits prod.splits)

lemma preinc_shape:
  assumes "operator_preinc h it = Inr (r, it')"
  shows "r = it' \<and>
         ((nextLayersTovisit it = [] \<and> it' = it\<lparr>currentLayer := None\<rparr>) \<or>
          (\<exists>l rest. nextLayersTovisit it = Some l # rest \<and>
             None \<notin> set (outData (layerAt h l)) \<and> None \<notin> set (insData (layerAt h l)) \<and>
             it' = it\<lparr>nextLayersTovisit := rest @ fresh (visited it) (expansion h l),
                       visited := visited it \<union> set (expansion h l),
                       currentLayer := front (rest @ fresh (visited it) (expansion h l))\<rparr>))"
proof (cases "nextLayersTovisit it")
  case Nil
  with assms show ?thesis
    by (auto simp: operator_preinc_def next_layer_empty Let_def)
next
  case (Cons x rest)
  show ?thesis
  proof (cases x)
    case None
    with Cons assms show ?thesis
      by (simp add: operator_preinc_def next_layer_null)
  next
    case (Some l)
    with Cons have q: "nextLayersTovisit it = Some l # rest" by simp
    from assms q show ?thesis
      by (simp add: operator_preinc_def next_layer_node [OF q] Let_def split: if_splits) blast
  qed
qed

lemma preinc_appended:
  assumes "operator_preinc h it = Inr (r, it')"
  shows "nextLayersTovisit it' = tl (nextLayersTovisit it) @ appended it it' \<and>
         distinct (appended it it') \<and> set (appended it it') \<inter> visited it = {} \<and>
         visited it' = visited it \<union> set (appended it it')"
  using preinc_shape [OF assms]
  by (auto simp: appended_def distinct_fresh set_fresh)

lemma diamond_network: "CNNNetworkIterator_network diamond (Some 0) = Inr at_A"
  by (simp add: CNNNetworkIterator_network_def diamond_def at_A_def CNNNetworkIterator_default_def)

section \<open>Dereference\<close>

text \<open>
  Claim C6. Dereferencing a cursor raises the out-of-bound exception if and only if the
  cursor's current node is empty; dereferencing a cursor whose current node is not empty
  returns the current node handle and raises nothing. Both overloads of \<^verbatim>\<open>operator*\<close>
  behave so.
\<close>

theorem deref_raises_iff_terminal:
  "((\<exists>e. operator_deref it = Inl e) \<longleftrightarrow> currentLayer it = None) \<and>
   ((\<exists>e. operator_deref_const it = Inl e) \<longleftrightarrow> currentLayer it = None) \<and>
   (currentLayer it = None \<longrightarrow>
      operator_deref it = Inl (IE_Exception ''iterator out of bound'') \<and>
      operator_deref_const it = Inl (IE_Exception ''iterator of ouf bound'')) \<and>
   (currentLayer it \<noteq> None \<longrightarrow>
      operator_deref it = Inr (currentLayer it) \<and>
      operator_deref_const it = Inr (currentLayer it))"
  by (auto simp: operator_deref_def operator_deref_const_def)

theorem deref_raises_iff_terminal_witness:
  "(currentLayer CNNNetworkIterator_default = None \<and>
    operator_deref CNNNetworkIterator_default = Inl (IE_Exception ''iterator out of bound'') \<and>
    operator_deref_const CNNNetworkIterator_default = Inl (IE_Exception ''iterator of ouf bound'')) \<and>
   (currentLayer at_A \<noteq> None \<and>
    operator_deref at_A = Inr (Some 1) \<and> operator_deref_const at_A = Inr (Some 1))"
  using deref_raises_iff_terminal [of CNNNetworkIterator_default]
    deref_raises_iff_terminal [of at_A]
  by (simp add: CNNNetworkIterator_default_def at_A_def)

section \<open>The two advance operators\<close>

text \<open>
  Claim C8. From every cursor state the pre-increment and the post-increment leave the
  same state behind (same current node, frontier queue, visited set and graph field), or
  fail alike. The pre-increment hands back the cursor as it is after the step; the
  post-increment hands back nothing, so the caller never sees the value before the step.
\<close>

theorem increments_agree:
  "map_sum id snd (operator_postinc h it) = map_sum id snd (operator_preinc h it) \<and>
   map_sum id fst (operator_postinc h it) = map_sum id (\<lambda>r. ()) (operator_preinc h it) \<and>
   map_sum id fst (operator_preinc h it) = map_sum id snd (operator_preinc h it)"
  by (simp add: operator_postinc_def operator_preinc_def Let_def split: sum.split prod.split)

section \<open>Construction without a seed\<close>

text \<open>
  Claim C4. Constructing a cursor from a graph that has no entry point, or whose first
  entry point has no consumer node, yields a cursor whose current node is empty, and
  which is equal to the default-constructed terminal cursor.
\<close>

theorem construct_without_seed:
  assumes "getInputsInfo (networkAt h n) = [] \<or>
           (\<exists>name info d rest.
              getInputsInfo (networkAt h n) = (name, Some info) # rest \<and>
              getInputData info = Some d \<and> getInputTo (dataAt h d) = [])"
  shows "CNNNetworkIterator_network h (Some n) = Inr CNNNetworkIterator_default \<and>
         (\<forall>it. CNNNetworkIterator_network h (Some n) = Inr it \<longrightarrow>
               currentLayer it = None \<and> operator_eq it CNNNetworkIterator_default)"
  using assms
  by (auto simp: CNNNetworkIterator_network_def operator_eq_def CNNNetworkIterator_default_def)

theorem construct_without_seed_witness:
  "(getInputsInfo (networkAt diamond 3) = [] \<and>
    CNNNetworkIterator_network diamond (Some 3) = Inr CNNNetworkIterator_default) \<and>
   (getInputsInfo (networkAt diamond 2) = [(''J'', Some \<lparr>getInputData = Some 15\<rparr>)] \<and>
    getInputTo (dataAt diamond 15) = [] \<and>
    CNNNetworkIterator_network diamond (Some 2) = Inr CNNNetworkIterator_default) \<and>
   currentLayer CNNNetworkIterator_default = None \<and>
   operator_eq CNNNetworkIterator_default CNNNetworkIterator_default"
  using construct_without_seed [of diamond 3] construct_without_seed [of diamond 2]
  by (simp add: diamond_def)

section \<open>The diamond\<close>

text \<open>
  Claim C7. In the graph where input \<open>I\<close> feeds \<open>A\<close>, \<open>A\<close> outputs to \<open>B\<close> and
  \<open>C\<close>, and \<open>B\<close> and \<open>C\<close> both output to \<open>D\<close>, the traversal emits \<open>A\<close>, then
  \<open>B\<close> and \<open>C\<close> in the order in which \<open>A\<close>'s consumer links are enumerated (\<open>B\<close>
  first when its link comes first, \<open>C\<close> first in the graph with the links swapped), then
  \<open>D\<close> once, and the fourth advance makes the cursor equal to the terminal cursor.
\<close>

theorem diamond_order:
  "CNNNetworkIterator_network diamond (Some 0) = Inr at_A \<and>
   range_loop diamond 5 at_A = Some (Inr [Some 1, Some 2, Some 3, Some 4]) \<and>
   map_sum id currentLayer (advance diamond [True] at_A) = Inr (Some 2) \<and>
   map_sum id currentLayer (advance diamond [True, True] at_A) = Inr (Some 3) \<and>
   map_sum id currentLayer (advance diamond [True, True, True] at_A) = Inr (Some 4) \<and>
   map_sum id nextLayersTovisit (advance diamond [True, True, True] at_A) = Inr [Some 4] \<and>
   map_sum id (\<lambda>it. operator_eq it CNNNetworkIterator_default)
     (advance diamond [True, True, True, True] at_A) = Inr True \<and>
   CNNNetworkIterator_network diamond_swapped (Some 0) = Inr at_A \<and>
   range_loop diamond_swapped 5 at_A = Some (Inr [Some 1, Some 3, Some 2, Some 4])"
  by code_simp

section \<open>Cursors built by construction and advance\<close>


lemma advance_visited_mono:
  "advance h bs it = Inr it' \<Longrightarrow> visited it \<subseteq> visited it'"
proof (induction bs arbitrary: it)
  case Nil
  then show ?case by simp
next
  case (Cons pre bs)
  then obtain it1 where s: "operator_preinc h it = Inr (it1, it1)" and r: "advance h bs it1 = Inr it'"
    by (cases pre)
       (auto simp: postinc_preinc operator_postinc_def operator_preinc_def Let_def
             split: sum.splits prod.splits)
  from preinc_appended [OF s] Cons.IH [OF r] show ?case by auto
qed

lemma enqueued_distinct:
  "enqueued h bs it = Inr log \<Longrightarrow> distinct log \<and> set log \<inter> visited it = {}"
proof (induction bs arbitrary: it log)
  case Nil
  then show ?case by simp
next
  case (Cons pre bs)
  from Cons.prems obtain it1 where s: "advance h [pre] it = Inr it1"
    by (cases "advance h [pre] it") (simp_all del: advance.simps)
  with Cons.prems obtain log1 where r: "enqueued h bs it1 = Inr log1"
    and l: "log = appended it it1 @ log1"
    by (cases "enqueued h bs it1") (auto simp del: advance.simps)
  from s have p: "operator_preinc h it = Inr (it1, it1)" by (simp only: advance_single)
  from preinc_appended [OF p] Cons.IH [OF r] l show ?case by auto
qed

lemma cursor_inv:
  "cursor h it \<Longrightarrow>
     currentLayer it = front (nextLayersTovisit it) \<and> network it = None \<and>
     distinct (nextLayersTovisit it) \<and> set (nextLayersTovisit it) \<subseteq> visited it"
proof (induction rule: cursor.induct)
  case cursor_default
  show ?case by (simp add: CNNNetworkIterator_default_def front_def)
next
  case (cursor_network net it)
  then show ?case
    by (auto simp: CNNNetworkIterator_network_def CNNNetworkIterator_default_def front_def
             split: option.splits list.splits)
next
  case (cursor_preinc it r it')
  from preinc_shape [OF cursor_preinc.hyps(2)] cursor_preinc.IH show ?case
    by (auto simp: front_def distinct_fresh set_fresh)
next
  case (cursor_postinc it u it')
  from cursor_postinc.hyps(2) have "operator_preinc h it = Inr (it', it')"
    by (simp add: postinc_preinc)
  from preinc_shape [OF this] cursor_postinc.IH show ?case
    by (auto simp: front_def distinct_fresh set_fresh)
qed


lemma expansion_present: "consumers_present h \<Longrightarrow> None \<notin> set (expansion h l)"
  by (auto simp: consumers_present_def expansion_def consumers_def edge_consumers_def
           split: option.splits)

lemma present_entry:
  "consumers_present h \<Longrightarrow> getInputTo (dataAt h d) = c # cs \<Longrightarrow> snd c \<noteq> None"
proof -
  assume "consumers_present h" and "getInputTo (dataAt h d) = c # cs"
  then have "None \<notin> snd ` set (c # cs)" by (metis consumers_present_def)
  then show ?thesis by force
qed

lemma cursor_present:
  "cursor h it \<Longrightarrow> consumers_present h \<Longrightarrow> None \<notin> visited it"
proof (induction rule: cursor.induct)
  case cursor_default
  show ?case by (simp add: CNNNetworkIterator_default_def)
next
  case (cursor_network net it)
  then show ?case
    by (auto simp: CNNNetworkIterator_network_def CNNNetworkIterator_default_def
             split: option.splits list.splits dest: present_entry)
next
  case (cursor_preinc it r it')
  from preinc_shape [OF cursor_preinc.hyps(2)] cursor_preinc.IH cursor_preinc.prems
    expansion_present [OF cursor_preinc.prems]
  show ?case by auto
next
  case (cursor_postinc it u it')
  from cursor_postinc.hyps(2) have "operator_preinc h it = Inr (it', it')"
    by (simp add: postinc_preinc)
  from preinc_shape [OF this] cursor_postinc.IH cursor_postinc.prems
    expansion_present [OF cursor_postinc.prems]
  show ?case by auto
qed

lemma preinc_exhausted:
  assumes "nextLayersTovisit it = []" and "currentLayer it = None"
  shows "operator_preinc h it = Inr (it, it)"
proof -
  from assms(2) have "it\<lparr>currentLayer := None\<rparr> = it" by (cases it) simp
  with assms(1) show ?thesis
    by (simp add: operator_preinc_def next_layer_empty Let_def)
qed

lemma advance_exhausted:
  assumes "nextLayersTovisit it = []" and "currentLayer it = None"
  shows "advance h bs it = Inr it"
proof (induction bs)
  case Nil
  show ?case by simp
next
  case (Cons pre bs)
  from preinc_exhausted [OF assms] have "operator_postinc h it = Inr ((), it)"
    by (simp add: postinc_preinc)
  with preinc_exhausted [OF assms, of h] Cons show ?case by simp
qed

lemma cursor_advance: "cursor h it \<Longrightarrow> advance h bs it = Inr it' \<Longrightarrow> cursor h it'"
proof (induction bs arbitrary: it)
  case Nil
  then show ?case by simp
next
  case (Cons pre bs)
  from Cons.prems(2) obtain it1 where s: "operator_preinc h it = Inr (it1, it1)"
    and r: "advance h bs it1 = Inr it'"
    by (cases pre)
       (auto simp: postinc_preinc operator_postinc_def operator_preinc_def Let_def
             split: sum.splits prod.splits)
  from cursor_preinc [OF Cons.prems(1) s] r show ?case by (rule Cons.IH)
qed

lemma diamond_present: "consumers_present diamond"
  by (simp add: consumers_present_def diamond_def)

lemma diamond_run: "advance diamond [True, True, True, True] at_A = Inr exhausted"
  by code_simp

lemma diamond_step: "operator_preinc diamond at_A = Inr (at_B, at_B)"
  by code_simp

section \<open>Equality of cursors\<close>

lemma cursor_eq_current:
  "cursor h this \<Longrightarrow> cursor h' that \<Longrightarrow>
     operator_eq this that \<longleftrightarrow> currentLayer this = currentLayer that"
  by (simp add: operator_eq_def cursor_inv)

text \<open>
  Claim C2. Two cursors are to compare equal if and only if they reference the same graph
  and the same current node, so that cursors constructed from different graphs are never
  equal unless both are terminal. \<^verbatim>\<open>operator==\<close> does compare the graph field, but the
  constructor leaves it empty (\<open>cursor_inv\<close>), so equality only sees the current node
  (\<open>cursor_eq_current\<close>). Here the code is evaluated where this shows: the graph objects
  at addresses 0 and 1 are two different graphs declaring the same entry point, and the
  cursors constructed from them compare equal although neither is terminal.
\<close>

theorem different_graphs_equal_cursors:
  "CNNNetworkIterator_network diamond (Some 0) = Inr at_A \<and>
   CNNNetworkIterator_network diamond (Some 1) = Inr at_A \<and>
   (0::addr) \<noteq> 1 \<and> operator_eq at_A at_A \<and> currentLayer at_A = Some 1 \<and> network at_A = None"
  by code_simp

section \<open>The terminal state\<close>

text \<open>
  Claim C5, as amended. Take any cursor obtained from the constructors and advance calls
  alone (built by either constructor and advanced any number of times, its current node
  never overwritten through the reference that \<^verbatim>\<open>operator*\<close> returns), over a graph in
  which no edge lists an empty consumer handle. If its current node is empty, then any
  run of further advance calls, pre- or post-increment in any mix, succeeds and returns
  the very same state: the current node stays empty and the frontier queue and the
  visited set are unchanged.
\<close>

theorem terminal_absorbing:
  assumes "cursor h it" and "consumers_present h" and "currentLayer it = None"
  shows "advance h bs it = Inr it \<and>
         operator_preinc h it = Inr (it, it) \<and> operator_postinc h it = Inr ((), it)"
proof -
  from cursor_inv [OF assms(1)] cursor_present [OF assms(1,2)] assms(3)
  have "front (nextLayersTovisit it) = None" and "None \<notin> set (nextLayersTovisit it)"
    by auto
  then have q: "nextLayersTovisit it = []"
    by (cases "nextLayersTovisit it") (auto simp: front_def)
  from preinc_exhausted [OF q assms(3)] have "operator_postinc h it = Inr ((), it)"
    by (simp add: postinc_preinc)
  with advance_exhausted [OF q assms(3)] preinc_exhausted [OF q assms(3)]
  show ?thesis by simp
qed

theorem terminal_absorbing_witness:
  "cursor diamond exhausted \<and> consumers_present diamond \<and> currentLayer exhausted = None \<and>
   advance diamond [True, False, True] exhausted = Inr exhausted \<and>
   operator_preinc diamond exhausted = Inr (exhausted, exhausted) \<and>
   operator_postinc diamond exhausted = Inr ((), exhausted)"
proof -
  have c: "cursor diamond exhausted"
    by (rule cursor_advance [OF cursor_network [OF diamond_network] diamond_run])
  have e: "currentLayer exhausted = None" by (simp add: exhausted_def)
  from terminal_absorbing [OF c diamond_present e, of "[True, False, True]"] c diamond_present e
  show ?thesis by simp
qed

text \<open>
  Claim C5 as first stated, for every cursor whose current node is empty, fails in two
  ways. On the diamond the caller empties the current node of the cursor at \<open>A\<close>
  through \<^verbatim>\<open>operator*\<close>; the queue still holds \<open>A\<close>, and the next advance makes
  \<open>B\<close> the current node and changes the queue and the visited set. On the graph with
  an empty consumer handle, four advances from the constructed cursor queue that handle:
  the current node is empty and the cursor equals the terminal cursor, but the next
  advance dereferences the empty handle.
\<close>

theorem terminal_not_absorbing:
  "operator_deref_assign at_A None = Inr emptied \<and>
   currentLayer emptied = None \<and>
   operator_preinc diamond emptied = Inr (at_B, at_B) \<and>
   operator_postinc diamond emptied = Inr ((), at_B) \<and>
   currentLayer at_B = Some 2 \<and>
   nextLayersTovisit at_B \<noteq> nextLayersTovisit emptied \<and>
   visited at_B \<noteq> visited emptied \<and>
   CNNNetworkIterator_network diamond_null (Some 0) = Inr at_A \<and>
   advance diamond_null [True, True, True, True] at_A = Inr stuck \<and>
   currentLayer stuck = None \<and> operator_eq stuck CNNNetworkIterator_default \<and>
   operator_preinc diamond_null stuck = Inl NullDereference \<and>
   operator_postinc diamond_null stuck = Inl NullDereference"
  by code_simp

section \<open>The frontier queue and the visited set\<close>

text \<open>
  Claim C3. An advance call that returns replaces the frontier queue by its tail followed
  by the appended handles; the appended handles are pairwise distinct, none of them was
  in the visited set before the call, and the visited set after the call is the old one
  together with exactly the appended handles. Over any run of advance calls the visited
  set only grows, the handles enqueued during the run are pairwise distinct and none was
  visited before; from a cursor obtained from the constructors and advance calls, they
  are also distinct from the handles already queued. So no node is enqueued twice in a
  traversal.
\<close>

theorem enqueue_at_most_once:
  "(operator_preinc h it = Inr (r, it') \<or> operator_postinc h it = Inr (u, it') \<longrightarrow>
      nextLayersTovisit it' = tl (nextLayersTovisit it) @ appended it it' \<and>
      distinct (appended it it') \<and> set (appended it it') \<inter> visited it = {} \<and>
      visited it' = visited it \<union> set (appended it it')) \<and>
   (advance h bs it = Inr it' \<longrightarrow> visited it \<subseteq> visited it') \<and>
   (enqueued h bs it = Inr log \<longrightarrow> distinct log \<and> set log \<inter> visited it = {}) \<and>
   (cursor h it \<and> enqueued h bs it = Inr log \<longrightarrow> distinct (nextLayersTovisit it @ log))"
proof -
  have "distinct (nextLayersTovisit it @ log)" if "cursor h it" and "enqueued h bs it = Inr log"
    using cursor_inv [OF that(1)] enqueued_distinct [OF that(2)] by auto
  moreover have "operator_preinc h it = Inr (it', it')" if "operator_postinc h it = Inr (u, it')"
    using that by (simp add: postinc_preinc)
  ultimately show ?thesis
    using preinc_appended [of h it r it'] preinc_appended [of h it it' it']
      advance_visited_mono [of h bs it it'] enqueued_distinct [of h bs it log]
    by blast
qed

theorem enqueue_at_most_once_witness:
  "operator_preinc diamond at_A = Inr (at_B, at_B) \<and>
   appended at_A at_B = [Some 2, Some 3] \<and>
   nextLayersTovisit at_B = tl (nextLayersTovisit at_A) @ [Some 2, Some 3] \<and>
   visited at_B = visited at_A \<union> {Some 2, Some 3} \<and>
   cursor diamond at_A \<and>
   advance diamond [True, True, True, True] at_A = Inr exhausted \<and>
   visited at_A \<subseteq> visited exhausted \<and>
   enqueued diamond [True, True, True, True] at_A = Inr [Some 2, Some 3, Some 4] \<and>
   distinct (nextLayersTovisit at_A @ [Some 2, Some 3, Some 4])"
proof -
  have c: "cursor diamond at_A" by (rule cursor_network [OF diamond_network])
  have a: "appended at_A at_B = [Some 2, Some 3]" by code_simp
  have l: "enqueued diamond [True, True, True, True] at_A = Inr [Some 2, Some 3, Some 4]"
    by code_simp
  from enqueue_at_most_once [of diamond at_A at_B at_B "()" "[True, True, True, True]" "[Some 2, Some 3, Some 4]"]
    enqueue_at_most_once [of diamond at_A at_B exhausted "()" "[True, True, True, True]" "[Some 2, Some 3, Some 4]"]
    c a l diamond_step diamond_run
  show ?thesis by simp
qed

section \<open>Empty handles during a step\<close>

text \<open>
  Claim C10. Let \<open>l\<close> be the node an advance call dequeues. If one of its incoming
  edges does not resolve (its weak handle locks to nothing), the call dereferences an
  empty handle, whichever operator is used. If all its outgoing and incoming edge handles
  resolve, \<^verbatim>\<open>next()\<close> returns, having appended the unvisited consumers and the unvisited
  producers that are present; a producer handle that is empty is dropped before the
  visited check, and a node whose incoming edges all lack a producer leaves the loop
  over the parents without any change of state.
\<close>

theorem advance_null_safety:
  assumes "nextLayersTovisit it = Some l # rest"
  shows "(None \<in> set (insData (layerAt h l)) \<longrightarrow>
            next_layer h it = Inl NullDereference \<and>
            operator_preinc h it = Inl NullDereference \<and>
            operator_postinc h it = Inl NullDereference) \<and>
         (None \<notin> set (outData (layerAt h l)) \<and> None \<notin> set (insData (layerAt h l)) \<longrightarrow>
            next_layer h it =
              Inr (front (rest @ fresh (visited it) (consumers h l @ filter (\<lambda>p. p \<noteq> None) (producers h l))),
                   it\<lparr>nextLayersTovisit :=
                        rest @ fresh (visited it) (consumers h l @ filter (\<lambda>p. p \<noteq> None) (producers h l)),
                      visited :=
                        visited it \<union> set (consumers h l @ filter (\<lambda>p. p \<noteq> None) (producers h l))\<rparr>)) \<and>
         (None \<notin> set ps \<and> (\<forall>d. Some d \<in> set ps \<longrightarrow> getCreatorLayer (dataAt h d) = None) \<longrightarrow>
            visit_parents h ps it = Inr it)"
proof -
  have "filter (\<lambda>p. p \<noteq> None) (edge_producers h ps) = []"
    if "\<forall>d. Some d \<in> set ps \<longrightarrow> getCreatorLayer (dataAt h d) = None"
    using that by (induction ps) (auto simp: edge_producers_def split: option.splits)
  then show ?thesis
    using next_layer_node [OF assms, of h]
    by (auto simp: operator_preinc_def operator_postinc_def visit_parents_eq expansion_def)
qed

theorem advance_null_safety_witness:
  "(nextLayersTovisit at_A = [Some 1] \<and> None \<in> set (insData (layerAt diamond_expired 1)) \<and>
    next_layer diamond_expired at_A = Inl NullDereference \<and>
    operator_preinc diamond_expired at_A = Inl NullDereference) \<and>
   (None \<notin> set (outData (layerAt diamond 1)) \<and> None \<notin> set (insData (layerAt diamond 1)) \<and>
    producers diamond 1 = [None] \<and>
    map_sum id (nextLayersTovisit \<circ> snd) (next_layer diamond at_A) = Inr [Some 2, Some 3] \<and>
    getCreatorLayer (dataAt diamond 10) = None \<and>
    visit_parents diamond [Some 10] at_A = Inr at_A)"
proof -
  have q: "nextLayersTovisit at_A = [Some 1]" by (simp add: at_A_def)
  have e: "None \<in> set (insData (layerAt diamond_expired 1))"
    by (simp add: diamond_expired_def)
  have d: "None \<notin> set (outData (layerAt diamond 1)) \<and> None \<notin> set (insData (layerAt diamond 1))"
    by (simp add: diamond_def)
  have p: "None \<notin> set [Some (10::nat)] \<and>
           (\<forall>d. Some d \<in> set [Some 10] \<longrightarrow> getCreatorLayer (dataAt diamond d) = None)"
    by (simp add: diamond_def)
  have x: "producers diamond 1 = [None]" by code_simp
  have y: "map_sum id (nextLayersTovisit \<circ> snd) (next_layer diamond at_A) = Inr [Some 2, Some 3]"
    by code_simp
  from advance_null_safety [OF q, of diamond_expired "[]"]
    advance_null_safety [OF q, of diamond "[Some 10]"] q e d p x y
  show ?thesis by simp
qed

section \<open>Graphs and the traversal invariant\<close>

lemma edges_in_nodes:
  assumes "graph_nodes h N" and "n \<in> N" and "(n, m) \<in> edges h"
  shows "m \<in> N"
proof -
  from assms(1,2)
  have c: "\<forall>c\<in>set (consumers h n). case c of None \<Rightarrow> False | Some m \<Rightarrow> m \<in> N"
    and p: "\<forall>p\<in>set (producers h n). case p of None \<Rightarrow> True | Some m \<Rightarrow> m \<in> N"
    by (simp_all add: graph_nodes_def)
  from assms(3) have "Some m \<in> set (consumers h n) \<or> Some m \<in> set (producers h n)"
    by (simp add: edges_def)
  then show ?thesis
  proof
    assume "Some m \<in> set (consumers h n)"
    with c have "case Some m of None \<Rightarrow> False | Some m \<Rightarrow> m \<in> N" by (rule bspec)
    then show ?thesis by simp
  next
    assume "Some m \<in> set (producers h n)"
    with p have "case Some m of None \<Rightarrow> True | Some m \<Rightarrow> m \<in> N" by (rule bspec)
    then show ?thesis by simp
  qed
qed

lemma component_in_nodes:
  assumes "graph_nodes h N" and "l \<in> N"
  shows "component h l \<subseteq> N"
proof
  fix m
  assume "m \<in> component h l"
  then have "(l, m) \<in> (edges h)\<^sup>*" by (simp add: component_def)
  then show "m \<in> N"
    by (induction rule: rtrancl_induct) (auto intro: assms edges_in_nodes [OF assms(1)])
qed

lemma component_step: "n \<in> component h l \<Longrightarrow> (n, m) \<in> edges h \<Longrightarrow> m \<in> component h l"
  by (auto simp: component_def intro: rtrancl_into_rtrancl)

lemma component_seed: "l \<in> component h l"
  by (simp add: component_def)

lemma node_resolvable:
  "graph_nodes h N \<Longrightarrow> n \<in> N \<Longrightarrow>
     None \<notin> set (outData (layerAt h n)) \<and> None \<notin> set (insData (layerAt h n))"
  by (simp add: graph_nodes_def)

lemma node_expansion:
  assumes "graph_nodes h N" and "n \<in> N"
  shows "set (expansion h n) = Some ` {m. (n, m) \<in> edges h}"
proof (rule set_eqI)
  fix x
  from assms have c: "None \<notin> set (consumers h n)"
    by (fastforce simp: graph_nodes_def)
  show "x \<in> set (expansion h n) \<longleftrightarrow> x \<in> Some ` {m. (n, m) \<in> edges h}"
  proof (cases x)
    case None
    with c show ?thesis by (simp add: expansion_def)
  next
    case (Some m)
    then show ?thesis by (simp add: expansion_def edges_def image_iff)
  qed
qed

lemma inv_count:
  assumes "traversal_inv h l E it" and "finite (component h l)"
  shows "length E + length (nextLayersTovisit it) \<le> card (component h l)"
proof -
  from assms(1) have d: "distinct (E @ nextLayersTovisit it)"
    and s: "set (E @ nextLayersTovisit it) \<subseteq> Some ` component h l"
    by (auto simp: traversal_inv_def)
  from d have "length (E @ nextLayersTovisit it) = card (set (E @ nextLayersTovisit it))"
    by (simp only: distinct_card)
  also from s assms(2) have "\<dots> \<le> card (Some ` component h l)"
    by (intro card_mono) auto
  also have "\<dots> = card (component h l)"
    by (simp add: card_image)
  finally show ?thesis by simp
qed

lemma inv_done:
  assumes "traversal_inv h l E it" and "nextLayersTovisit it = []"
  shows "set E = Some ` component h l \<and> visited it = set E \<and> currentLayer it = None \<and>
         network it = None"
proof -
  from assms have v: "visited it = set E" and sub: "set E \<subseteq> Some ` component h l"
    and seed: "Some l \<in> set E"
    and closed: "\<And>n m. Some n \<in> set E \<Longrightarrow> (n, m) \<in> edges h \<Longrightarrow> Some m \<in> set E"
    and cur: "currentLayer it = None" and net: "network it = None"
    by (auto simp: traversal_inv_def front_def)
  have "Some m \<in> set E" if "(l, m) \<in> (edges h)\<^sup>*" for m
    using that by (induction rule: rtrancl_induct) (auto intro: seed closed)
  then have "Some ` component h l \<subseteq> set E"
    by (auto simp: component_def)
  with sub v cur net show ?thesis by auto
qed

lemma inv_step:
  assumes g: "graph_nodes h N" and l: "l \<in> N"
    and inv: "traversal_inv h l E it" and q: "nextLayersTovisit it = x # rest"
  shows "\<exists>it'. operator_preinc h it = Inr (it', it') \<and> traversal_inv h l (E @ [x]) it' \<and>
               x \<noteq> None \<and> currentLayer it = x"
proof -
  from inv q have "x \<in> Some ` component h l" by (auto simp: traversal_inv_def)
  then obtain n where x: "x = Some n" and n: "n \<in> component h l" by auto
  from n component_in_nodes [OF g l] have nN: "n \<in> N" by auto
  let ?new = "fresh (visited it) (expansion h n)"
  let ?it' = "it\<lparr>nextLayersTovisit := rest @ ?new,
                 visited := visited it \<union> set (expansion h n),
                 currentLayer := front (rest @ ?new)\<rparr>"
  from q x have q': "nextLayersTovisit it = Some n # rest" by simp
  from node_resolvable [OF g nN] have step: "operator_preinc h it = Inr (?it', ?it')"
    by (simp add: operator_preinc_def next_layer_node [OF q'] Let_def)
  have ex: "set (expansion h n) = Some ` {m. (n, m) \<in> edges h}"
    by (rule node_expansion [OF g nN])
  have sub: "set (expansion h n) \<subseteq> Some ` component h l"
    using ex component_step [OF n] by auto
  have new: "set ?new = set (expansion h n) - visited it" by (rule set_fresh)
  from inv q' have v: "visited it = set E \<union> set (Some n # rest)"
    and d: "distinct (E @ Some n # rest)"
    and seed: "Some l \<in> visited it" and comp: "visited it \<subseteq> Some ` component h l"
    and closed: "\<And>a b. Some a \<in> set E \<Longrightarrow> (a, b) \<in> edges h \<Longrightarrow> Some b \<in> visited it"
    and net: "network it = None"
    by (auto simp: traversal_inv_def)
  have 1: "visited ?it' = set (E @ [x]) \<union> set (nextLayersTovisit ?it')"
    using v new x by auto
  have 2: "distinct ((E @ [x]) @ nextLayersTovisit ?it')"
    using d new v x distinct_fresh [of "visited it" "expansion h n"] by auto
  have 3: "Some l \<in> visited ?it'" using seed by simp
  have 4: "visited ?it' \<subseteq> Some ` component h l" using comp sub by simp
  have 5: "Some b \<in> visited ?it'" if "Some a \<in> set (E @ [x])" and "(a, b) \<in> edges h" for a b
  proof (cases "a = n")
    case True
    with that(2) ex show ?thesis by auto
  next
    case False
    with that x have "Some a \<in> set E" by auto
    from closed [OF this that(2)] show ?thesis by simp
  qed
  have 6: "network ?it' = None" using net by simp
  have 7: "currentLayer ?it' = front (nextLayersTovisit ?it')" by simp
  have 8: "\<forall>a b. Some a \<in> set (E @ [x]) \<longrightarrow> (a, b) \<in> edges h \<longrightarrow> Some b \<in> visited ?it'"
    using 5 by blast
  have 9: "traversal_inv h l (E @ [x]) ?it'"
    unfolding traversal_inv_def by (intro conjI 1 2 3 4 6 7 8)
  from inv q have 10: "currentLayer it = x" by (simp add: traversal_inv_def front_def)
  from x have 11: "x \<noteq> None" by simp
  show ?thesis by (rule exI [of _ ?it']) (intro conjI step 9 10 11)
qed


lemma seeded_inv:
  assumes "CNNNetworkIterator_network h net = Inr it" and "nextLayersTovisit it = Some l # rest"
  shows "traversal_inv h l [] it \<and> rest = [] \<and> currentLayer it = Some l"
  using assms
  by (auto simp: CNNNetworkIterator_network_def CNNNetworkIterator_default_def
                 traversal_inv_def front_def component_seed
           split: option.splits list.splits)

lemma unseeded:
  assumes "CNNNetworkIterator_network h net = Inr it" and "nextLayersTovisit it = []"
  shows "it = CNNNetworkIterator_default"
  using assms
  by (auto simp: CNNNetworkIterator_network_def CNNNetworkIterator_default_def
           split: option.splits list.splits)

lemma finite_component:
  "graph_nodes h N \<Longrightarrow> l \<in> N \<Longrightarrow> finite (component h l)"
  using component_in_nodes [of h N l] by (auto simp: graph_nodes_def intro: finite_subset)

lemma inv_full:
  assumes g: "graph_nodes h N" and l: "l \<in> N" and inv: "traversal_inv h l E it"
    and k: "length E = card (component h l)"
  shows "nextLayersTovisit it = []"
  using inv_count [OF inv finite_component [OF g l]] k by simp

lemma inv_more:
  assumes g: "graph_nodes h N" and l: "l \<in> N" and inv: "traversal_inv h l E it"
    and k: "length E < card (component h l)"
  shows "nextLayersTovisit it \<noteq> []"
proof
  assume "nextLayersTovisit it = []"
  from inv_done [OF inv this] have "set E = Some ` component h l" by simp
  moreover from inv have "distinct E" by (simp add: traversal_inv_def)
  ultimately have "length E = card (Some ` component h l)" by (metis distinct_card)
  with k show False by (simp add: card_image)
qed

lemma range_loop_done:
  assumes "nextLayersTovisit it = []" and "currentLayer it = None" and "network it = None"
  shows "range_loop h (Suc k) it = Some (Inr [])"
  using assms by (simp add: operator_neq_def operator_eq_def CNNNetworkIterator_default_def)

lemma range_loop_step:
  assumes "operator_preinc h it = Inr (it', it')" and "currentLayer it = x" and "x \<noteq> None"
    and "range_loop h k it' = Some (Inr xs)"
  shows "range_loop h (Suc k) it = Some (Inr (x # xs))"
  using assms
  by (auto simp: operator_neq_def operator_eq_def CNNNetworkIterator_default_def
      operator_deref_def)

lemma range_loop_inv:
  assumes g: "graph_nodes h N" and l: "l \<in> N"
  shows "traversal_inv h l E it \<Longrightarrow> length E + k = card (component h l) \<Longrightarrow>
         \<exists>xs. range_loop h (Suc k) it = Some (Inr xs) \<and> distinct (E @ xs) \<and>
              set (E @ xs) = Some ` component h l"
proof (induction k arbitrary: E it)
  case 0
  then have q: "nextLayersTovisit it = []" using inv_full [OF g l] by simp
  from inv_done [OF "0.prems"(1) q] "0.prems"(1) range_loop_done [of it h 0] q
  show ?case by (auto simp: traversal_inv_def)
next
  case (Suc k)
  then have "nextLayersTovisit it \<noteq> []" using inv_more [OF g l] by simp
  then obtain x rest where q: "nextLayersTovisit it = x # rest"
    by (cases "nextLayersTovisit it") auto
  from inv_step [OF g l Suc.prems(1) q] obtain it' where
    s: "operator_preinc h it = Inr (it', it')" and i: "traversal_inv h l (E @ [x]) it'"
    and x: "x \<noteq> None" and c: "currentLayer it = x" by blast
  from Suc.prems(2) have "length (E @ [x]) + k = card (component h l)" by simp
  from Suc.IH [OF i this] obtain xs where
    r: "range_loop h (Suc k) it' = Some (Inr xs)" and d: "distinct ((E @ [x]) @ xs)"
    and e: "set ((E @ [x]) @ xs) = Some ` component h l" by blast
  from range_loop_step [OF s c x r] d e show ?case
    by (intro exI [of _ "x # xs"]) simp
qed

lemma advance_inv:
  assumes g: "graph_nodes h N" and l: "l \<in> N"
  shows "traversal_inv h l E it \<Longrightarrow> length E + length bs = card (component h l) \<Longrightarrow>
         \<exists>it'. advance h bs it = Inr it' \<and> nextLayersTovisit it' = [] \<and>
               currentLayer it' = None \<and> network it' = None \<and>
               visited it' = Some ` component h l"
proof (induction bs arbitrary: E it)
  case Nil
  then have q: "nextLayersTovisit it = []" using inv_full [OF g l] by simp
  from inv_done [OF Nil.prems(1) q] q show ?case by simp
next
  case (Cons pre bs)
  then have "nextLayersTovisit it \<noteq> []" using inv_more [OF g l] by simp
  then obtain x rest where q: "nextLayersTovisit it = x # rest"
    by (cases "nextLayersTovisit it") auto
  from inv_step [OF g l Cons.prems(1) q] obtain it' where
    s: "operator_preinc h it = Inr (it', it')" and i: "traversal_inv h l (E @ [x]) it'"
    by blast
  from s have s': "operator_postinc h it = Inr ((), it')" by (simp add: postinc_preinc)
  from Cons.prems(2) have "length (E @ [x]) + length bs = card (component h l)" by simp
  from Cons.IH [OF i this] s s' show ?case by simp
qed

lemma range_loop_mono:
  "range_loop h n it = Some r \<Longrightarrow> n \<le> m \<Longrightarrow> range_loop h m it = Some r"
proof (induction n arbitrary: m it r)
  case 0
  then show ?case by simp
next
  case (Suc n)
  from Suc.prems(2) obtain m' where m: "m = Suc m'" and le: "n \<le> m'"
    by (cases m) auto
  show ?case
  proof (cases "operator_neq it CNNNetworkIterator_default")
    case False
    with Suc.prems(1) m show ?thesis by simp
  next
    case True
    note neq = this
    show ?thesis
    proof (cases "operator_deref it")
      case (Inl e)
      with Suc.prems(1) m neq show ?thesis by simp
    next
      case (Inr x)
      note deref = this
      show ?thesis
      proof (cases "operator_preinc h it")
        case (Inl e)
        with Suc.prems(1) m neq deref show ?thesis by simp
      next
        case (Inr p)
        obtain ret it' where p: "p = (ret, it')" by (cases p)
        with Inr Suc.prems(1) neq deref obtain r' where
          r': "range_loop h n it' = Some r'" and r: "r = map_sum id ((#) x) r'"
          by auto
        from Suc.IH [OF r' le] Inr p neq deref m r show ?thesis by simp
      qed
    qed
  qed
qed


lemma advance_append:
  "advance h (as @ bs) it =
     (case advance h as it of Inl e \<Rightarrow> Inl e | Inr it1 \<Rightarrow> advance h bs it1)"
  by (induction as arbitrary: it) (auto split: sum.splits)

lemma seeded_queue:
  assumes "CNNNetworkIterator_network h net = Inr it" and "currentLayer it = Some l"
  shows "nextLayersTovisit it = [Some l]"
  using assms
  by (auto simp: CNNNetworkIterator_network_def CNNNetworkIterator_default_def
           split: option.splits list.splits)

text \<open>
  Where every consumer link has its producer back-reference and conversely, the steps
  form a symmetric relation, and the component is the class of the seed under steps
  taken forwards or backwards.
\<close>

lemma component_symmetric:
  "sym (edges h) \<Longrightarrow> component h l = (edges h \<union> (edges h)\<inverse>)\<^sup>* `` {l}"
  by (simp add: component_def sym_conv_converse_eq)

lemma diamond_nodes: "graph_nodes diamond {1, 2, 3, 4}"
  by (simp add: graph_nodes_def consumers_def producers_def edge_consumers_def
      edge_producers_def diamond_def)

lemma diamond_loop: "range_loop diamond 5 at_A = Some (Inr [Some 1, Some 2, Some 3, Some 4])"
  by code_simp

section \<open>The traversal emits the component\<close>

text \<open>
  Claim C1. Take a finite graph with node set \<open>N\<close> and a cursor constructed from it
  whose current node is the first consumer \<open>l\<close> of the first entry point. The loop that
  dereferences and advances until the cursor equals the default-constructed cursor ends
  without an error, whatever fuel it needs is at most one more than the size of the
  component, and every run that ends yields the same list. That list holds no handle
  twice, and its handles are exactly the nodes of the weakly-connected component of
  \<open>l\<close>: the nodes reached from \<open>l\<close> by steps to a consumer of an outgoing edge or to
  the producer of an incoming edge.
\<close>

theorem traversal_emits_component:
  assumes "graph_nodes h N" and "CNNNetworkIterator_network h net = Inr it"
    and "currentLayer it = Some l" and "l \<in> N"
  shows "\<exists>xs. range_loop h (Suc (card (component h l))) it = Some (Inr xs) \<and>
              (\<forall>fuel r. range_loop h fuel it = Some r \<longrightarrow> r = Inr xs) \<and>
              distinct xs \<and> set xs = Some ` component h l \<and>
              length xs = card (component h l)"
proof -
  from seeded_queue [OF assms(2,3)] have q: "nextLayersTovisit it = Some l # []" by simp
  from seeded_inv [OF assms(2) q] have inv: "traversal_inv h l [] it" by simp
  from range_loop_inv [OF assms(1,4) inv, of "card (component h l)"] obtain xs where
    r: "range_loop h (Suc (card (component h l))) it = Some (Inr xs)"
    and d: "distinct xs" and s: "set xs = Some ` component h l" by auto
  have "r' = Inr xs" if "range_loop h fuel it = Some r'" for fuel r'
  proof (cases "fuel \<le> Suc (card (component h l))")
    case True
    from range_loop_mono [OF that True] r show ?thesis by simp
  next
    case False
    then have "Suc (card (component h l)) \<le> fuel" by simp
    from range_loop_mono [OF r this] that show ?thesis by simp
  qed
  moreover from d s have "length xs = card (component h l)"
    by (metis distinct_card card_image inj_Some)
  ultimately show ?thesis using r d s by blast
qed

theorem traversal_emits_component_witness:
  "graph_nodes diamond {1, 2, 3, 4} \<and>
   CNNNetworkIterator_network diamond (Some 0) = Inr at_A \<and>
   currentLayer at_A = Some 1 \<and> (1::addr) \<in> {1, 2, 3, 4} \<and>
   range_loop diamond 5 at_A = Some (Inr [Some 1, Some 2, Some 3, Some 4]) \<and>
   component diamond 1 = {1, 2, 3, 4}"
proof -
  have c: "currentLayer at_A = Some 1" by (simp add: at_A_def)
  have m: "(1::addr) \<in> {1, 2, 3, 4}" by simp
  from traversal_emits_component [OF diamond_nodes diamond_network c m] obtain xs where
    f: "\<forall>fuel r. range_loop diamond fuel at_A = Some r \<longrightarrow> r = Inr xs"
    and s: "set xs = Some ` component diamond 1" by blast
  from f diamond_loop have "xs = [Some 1, Some 2, Some 3, Some 4]" by blast
  with s have "Some ` component diamond 1 = Some ` {1, 2, 3, 4}" by auto
  then have "component diamond 1 = {1, 2, 3, 4}" by (simp only: inj_image_eq_iff [OF inj_Some])
  with diamond_nodes diamond_network c m diamond_loop show ?thesis by simp
qed

section \<open>The traversal terminates\<close>

text \<open>
  Claim C9. Take a finite graph with node set \<open>N\<close> and any cursor constructed from it
  (its seed, if it has one, being a node of \<open>N\<close>). There is a number \<open>k\<close>, at most the
  number of nodes, such that every run of at least \<open>k\<close> advance calls, pre- or
  post-increment in any mix, succeeds and ends in a cursor with an empty current node and
  an empty frontier queue, equal to the terminal cursor.
\<close>

theorem traversal_terminates:
  assumes "graph_nodes h N" and "CNNNetworkIterator_network h net = Inr it"
    and "set (nextLayersTovisit it) \<subseteq> Some ` N"
  shows "\<exists>k\<le>card N. \<forall>bs. k \<le> length bs \<longrightarrow>
           (\<exists>it'. advance h bs it = Inr it' \<and> currentLayer it' = None \<and>
                  nextLayersTovisit it' = [] \<and> operator_eq it' CNNNetworkIterator_default)"
proof (cases "nextLayersTovisit it")
  case Nil
  from unseeded [OF assms(2) Nil] have d: "it = CNNNetworkIterator_default" .
  have "advance h bs it = Inr it" for bs
    unfolding d by (rule advance_exhausted) (simp_all add: CNNNetworkIterator_default_def)
  then have "\<forall>bs. 0 \<le> length bs \<longrightarrow>
           (\<exists>it'. advance h bs it = Inr it' \<and> currentLayer it' = None \<and>
                  nextLayersTovisit it' = [] \<and> operator_eq it' CNNNetworkIterator_default)"
    using d by (simp add: operator_eq_def CNNNetworkIterator_default_def)
  then show ?thesis by blast
next
  case (Cons x rest)
  with assms(3) obtain l where x: "x = Some l" and l: "l \<in> N" by auto
  from Cons x have q: "nextLayersTovisit it = Some l # rest" by simp
  from seeded_inv [OF assms(2) q] have inv: "traversal_inv h l [] it" by simp
  let ?k = "card (component h l)"
  from assms(1) have "finite N" by (simp add: graph_nodes_def)
  with component_in_nodes [OF assms(1) l] have k: "?k \<le> card N" by (rule card_mono [rotated])
  have "\<exists>it'. advance h bs it = Inr it' \<and> currentLayer it' = None \<and>
             nextLayersTovisit it' = [] \<and> operator_eq it' CNNNetworkIterator_default"
    if "?k \<le> length bs" for bs
  proof -
    from that have "length [] + length (take ?k bs) = ?k" by simp
    from advance_inv [OF assms(1) l inv this] obtain it1 where
      a: "advance h (take ?k bs) it = Inr it1" and e: "nextLayersTovisit it1 = []"
      and c: "currentLayer it1 = None" and n: "network it1 = None" by blast
    have "advance h (take ?k bs @ drop ?k bs) it = Inr it1"
      by (simp only: advance_append a sum.case advance_exhausted [OF e c])
    with e c n show ?thesis
      by (simp add: operator_eq_def CNNNetworkIterator_default_def)
  qed
  with k show ?thesis by blast
qed

theorem traversal_terminates_witness:
  "graph_nodes diamond {1, 2, 3, 4} \<and>
   CNNNetworkIterator_network diamond (Some 0) = Inr at_A \<and>
   set (nextLayersTovisit at_A) \<subseteq> Some ` {1, 2, 3, 4} \<and>
   (\<exists>k\<le>4. \<forall>bs. k \<le> length bs \<longrightarrow>
      (\<exists>it'. advance diamond bs at_A = Inr it' \<and> currentLayer it' = None \<and>
             nextLayersTovisit it' = [] \<and> operator_eq it' CNNNetworkIterator_default))"
proof -
  have s: "set (nextLayersTovisit at_A) \<subseteq> Some ` {1, 2, 3, 4}" by (simp add: at_A_def)
  have k: "card {1, 2, 3, 4 :: addr} = 4" by simp
  from traversal_terminates [OF diamond_nodes diamond_network s]
  have "\<exists>k\<le>4. \<forall>bs. k \<le> length bs \<longrightarrow>
      (\<exists>it'. advance diamond bs at_A = Inr it' \<and> currentLayer it' = None \<and>
             nextLayersTovisit it' = [] \<and> operator_eq it' CNNNetworkIterator_default)"
    by (simp only: k)
  with diamond_nodes diamond_network s show ?thesis by (intro conjI)
qed

end
